theory Spec2Isabelle
  imports Main "HOL-Library.Word" "HOL-Library.Sublist"
begin

section \<open>Strings\<close>

text \<open>
  A JavaScript string is a sequence of UTF-16 code units.  String literals of the
  source are written \<open>js ''...''\<close>.
\<close>

type_synonym jsString = "16 word list"

definition js :: "string \<Rightarrow> jsString" where
  "js cs = map of_char cs"

text \<open>
  \<open>String.prototype.trim\<close> strips the code units that ECMAScript calls WhiteSpace or
  LineTerminator from both ends.
\<close>

definition isWhiteSpace :: "16 word \<Rightarrow> bool" where
  "isWhiteSpace c \<longleftrightarrow>
     c \<in> set [0x0009, 0x000A, 0x000B, 0x000C, 0x000D, 0x0020, 0x00A0, 0x1680,
               0x2000, 0x2001, 0x2002, 0x2003, 0x2004, 0x2005, 0x2006, 0x2007,
               0x2008, 0x2009, 0x200A, 0x2028, 0x2029, 0x202F, 0x205F, 0x3000,
               0xFEFF]"

definition trim :: "jsString \<Rightarrow> jsString" where
  "trim s = rev (dropWhile isWhiteSpace (rev (dropWhile isWhiteSpace s)))"

text \<open>\<open>s.split('\n')\<close>: the pieces between line feeds; never the empty array.\<close>

fun splitLines :: "jsString \<Rightarrow> jsString list" where
  "splitLines [] = [[]]"
| "splitLines (c # cs) =
     (if c = 0x000A then [] # splitLines cs
      else case splitLines cs of [] \<Rightarrow> [[c]] | line # lines \<Rightarrow> (c # line) # lines)"

text \<open>\<open>s.includes(t)\<close>: \<open>t\<close> occurs in \<open>s\<close> as a contiguous run.\<close>

fun includes_str :: "jsString \<Rightarrow> jsString \<Rightarrow> bool" where
  "includes_str [] t = (t = [])"
| "includes_str (c # cs) t = (prefix t (c # cs) \<or> includes_str cs t)"

section \<open>types.ts\<close>

datatype JobStatus = PENDING | PROCESSING | COMPLETED | FAILED

type_synonym blob = "8 word list"

text \<open>
  An optional field is an \<open>option\<close>; \<open>undefined\<close> is \<open>None\<close>.  The field \<open>id\<close> of
  the source is \<open>id'\<close> here.
\<close>

record VideoJob =
  id' :: jsString
  prompt :: jsString
  status :: JobStatus
  videoUrl :: "jsString option"
  videoBlob :: "blob option"
  fileName :: "jsString option"
  createdAt :: int
  completedAt :: "int option"
  error :: "jsString option"

datatype GenerateVideoResult = GenerateVideoResult (resultUrl: jsString) (resultBlob: blob)

section \<open>App.tsx: the component state\<close>

text \<open>
  A \<open>processQueue\<close> function is created by each run of the effect and closes over the
  \<open>jobs\<close> and \<open>apiKeyReady\<close> of the render that the effect belongs to.
\<close>

type_synonym closure = "VideoJob list \<times> bool"

text \<open>
  The control points of \<open>processQueue\<close>.  JavaScript runs a handler to completion, so at most
  one invocation is executing; the others are suspended at the \<open>await\<close>.
\<close>

datatype control =
    Idle
  | AtEntry closure
  | AtTry closure VideoJob
  | AtCatch closure VideoJob "jsString option"
  | AtFinally closure

text \<open>
  The first five fields are the component's own (\<open>useState\<close> and \<open>useRef\<close>).  The others
  record its surroundings: the executing invocation, the invocations suspended at
  \<open>await generateVideoWithVeo(job.prompt)\<close>, the prompts the client has been called with, the
  identifiers \<open>crypto.randomUUID()\<close> has returned, and the time of the last event that
  carried a reading of \<open>Date.now()\<close>.
\<close>

record App =
  apiKeyReady :: bool
  inputPrompt :: jsString
  jobs :: "VideoJob list"
  isProcessing :: bool
  processingRef :: bool
  running :: control
  awaiting :: "(closure \<times> VideoJob) list"
  calls :: "jsString list"
  issued :: "jsString list"
  clock :: int

definition initial :: "int \<Rightarrow> App" where
  "initial t0 =
     \<lparr>apiKeyReady = False, inputPrompt = [], jobs = [], isProcessing = False,
      processingRef = False, running = Idle, awaiting = [], calls = [], issued = [],
      clock = t0\<rparr>"

subsection \<open>handleAddJobs\<close>

definition newJob :: "jsString \<Rightarrow> jsString \<Rightarrow> int \<Rightarrow> VideoJob" where
  "newJob uuid line now =
     \<lparr>id' = uuid, prompt = trim line, status = PENDING, videoUrl = None, videoBlob = None,
      fileName = None, createdAt = now, completedAt = None, error = None\<rparr>"

definition nonBlankLines :: "jsString \<Rightarrow> jsString list" where
  "nonBlankLines text = filter (\<lambda>line. length (trim line) > 0) (splitLines text)"

text \<open>
  \<open>uuid i\<close> and \<open>now i\<close> are what \<open>crypto.randomUUID()\<close> and \<open>Date.now()\<close> return in the
  \<open>map\<close> callback for the \<open>i\<close>-th kept line.
\<close>

definition newJobs :: "(nat \<Rightarrow> jsString) \<Rightarrow> (nat \<Rightarrow> int) \<Rightarrow> jsString list \<Rightarrow> VideoJob list" where
  "newJobs uuid now lines = map (\<lambda>(i, line). newJob (uuid i) line (now i)) (enumerate 0 lines)"

definition handleAddJobs :: "(nat \<Rightarrow> jsString) \<Rightarrow> (nat \<Rightarrow> int) \<Rightarrow> App \<Rightarrow> App" where
  "handleAddJobs uuid now s =
     (if trim (inputPrompt s) = [] then s
      else s\<lparr>jobs := jobs s @ newJobs uuid now (nonBlankLines (inputPrompt s)),
             inputPrompt := []\<rparr>)"

subsection \<open>retryJob, deleteJob, clearAll, handleConnect\<close>

definition retryJob :: "jsString \<Rightarrow> App \<Rightarrow> App" where
  "retryJob i s =
     s\<lparr>jobs := map (\<lambda>j. if id' j = i then j\<lparr>status := PENDING, error := None\<rparr> else j) (jobs s)\<rparr>"

definition deleteJob :: "jsString \<Rightarrow> App \<Rightarrow> App" where
  "deleteJob i s = s\<lparr>jobs := filter (\<lambda>j. id' j \<noteq> i) (jobs s)\<rparr>"

text \<open>\<open>confirmed\<close> is the answer of the \<open>confirm\<close> dialog.\<close>

definition clearAll :: "bool \<Rightarrow> App \<Rightarrow> App" where
  "clearAll confirmed s = (if confirmed then s\<lparr>jobs := []\<rparr> else s)"

text \<open>\<open>selected\<close> says that \<open>promptApiKeySelection\<close> and the re-check did not throw.\<close>

definition handleConnect :: "bool \<Rightarrow> App \<Rightarrow> App" where
  "handleConnect selected s = (if selected then s\<lparr>apiKeyReady := True\<rparr> else s)"

section \<open>services/geminiService.ts: generateVideoWithVeo\<close>

text \<open>
  What the SDK, the polling loop and the download do is not part of the program; \<open>remote\<close>
  is what they end in.  A thrown value is represented by its \<open>message\<close> (\<open>None\<close> when it
  has none).  \<open>ClientInitThrows\<close> is a throw of \<open>new GoogleGenAI\<close>, which stands before the
  \<open>try\<close>; \<open>ApiThrows\<close> is a throw of \<open>generateVideos\<close>, \<open>getVideosOperation\<close>, \<open>fetch\<close>
  or \<open>blob\<close>, inside it.  A poll that is never \<open>done\<close> is a promise that never settles.
\<close>

datatype remote =
    ClientInitThrows "jsString option"
  | ApiThrows "jsString option"
  | NoUri
  | DownloadNotOk jsString
  | Downloaded jsString blob

datatype settled = Resolved GenerateVideoResult | Rejected "jsString option"

text \<open>\<open>error.message && error.message.includes("Requested entity was not found")\<close>\<close>

definition entityNotFound :: "jsString option \<Rightarrow> bool" where
  "entityNotFound message =
     (case message of
        None \<Rightarrow> False
      | Some m \<Rightarrow> m \<noteq> [] \<and> includes_str m (js ''Requested entity was not found''))"

text \<open>The \<open>catch\<close> block of \<open>generateVideoWithVeo\<close>.\<close>

definition veoCatch :: "jsString option \<Rightarrow> settled" where
  "veoCatch message =
     (if entityNotFound message
      then Rejected (Some (js ''API Key session expired or invalid. Please re-select your key.''))
      else Rejected message)"

definition generateVideoWithVeo :: "remote \<Rightarrow> settled" where
  "generateVideoWithVeo r =
     (case r of
        ClientInitThrows message \<Rightarrow> Rejected message
      | ApiThrows message \<Rightarrow> veoCatch message
      | NoUri \<Rightarrow> veoCatch (Some (js ''Video generation completed but no URI was returned.''))
      | DownloadNotOk statusText \<Rightarrow>
          veoCatch (Some (js ''Failed to download video: '' @ statusText))
      | Downloaded objectUrl b \<Rightarrow> Resolved (GenerateVideoResult objectUrl b))"

section \<open>App.tsx: the queue processor\<close>

text \<open>\<open>xs.findIndex(p)\<close>, with \<open>None\<close> for \<open>-1\<close>.\<close>

fun findIndex :: "('a \<Rightarrow> bool) \<Rightarrow> 'a list \<Rightarrow> nat option" where
  "findIndex p [] = None"
| "findIndex p (x # xs) = (if p x then Some 0 else map_option Suc (findIndex p xs))"

text \<open>The three updaters that \<open>processQueue\<close> hands to \<open>setJobs\<close>.\<close>

definition setProcessing :: "VideoJob \<Rightarrow> VideoJob list \<Rightarrow> VideoJob list" where
  "setProcessing job prev =
     map (\<lambda>j. if id' j = id' job then j\<lparr>status := PROCESSING\<rparr> else j) prev"

definition setCompleted :: "VideoJob \<Rightarrow> GenerateVideoResult \<Rightarrow> int \<Rightarrow> VideoJob list \<Rightarrow> VideoJob list" where
  "setCompleted job result now prev =
     map (\<lambda>j. if id' j = id' job
               then j\<lparr>status := COMPLETED, videoUrl := Some (resultUrl result),
                      videoBlob := Some (resultBlob result), completedAt := Some now\<rparr>
               else j) prev"

text \<open>\<open>error.message || "Generation failed"\<close>\<close>

definition messageOrDefault :: "jsString option \<Rightarrow> jsString" where
  "messageOrDefault message =
     (case message of
        None \<Rightarrow> js ''Generation failed''
      | Some m \<Rightarrow> if m = [] then js ''Generation failed'' else m)"

definition setFailed :: "VideoJob \<Rightarrow> jsString option \<Rightarrow> VideoJob list \<Rightarrow> VideoJob list" where
  "setFailed job message prev =
     map (\<lambda>j. if id' j = id' job
               then j\<lparr>status := FAILED, error := Some (messageOrDefault message)\<rparr>
               else j) prev"

text \<open>
  \<open>processQueue\<close> from its first line to the \<open>try\<close> (lines 61 to 77).  The list searched is
  the one the closure captured; the list updated is the current one.
\<close>

definition processQueue :: "closure \<Rightarrow> App \<Rightarrow> App" where
  "processQueue c s =
     (if processingRef s then s\<lparr>running := Idle\<rparr>
      else case findIndex (\<lambda>j. status j = PENDING) (fst c) of
        None \<Rightarrow> s\<lparr>isProcessing := False, running := Idle\<rparr>
      | Some nextJobIndex \<Rightarrow>
          let job = fst c ! nextJobIndex
          in s\<lparr>processingRef := True, isProcessing := True,
               jobs := setProcessing job (jobs s), running := AtTry c job\<rparr>)"

text \<open>
  The \<open>try\<close> block up to the \<open>await\<close> (lines 79 to 84): either the throw, or the call of the
  client, at which the invocation is suspended.
\<close>

definition tryBlock :: "closure \<Rightarrow> VideoJob \<Rightarrow> App \<Rightarrow> App" where
  "tryBlock c job s =
     (if \<not> snd c then s\<lparr>running := AtCatch c job (Some (js ''API Key not connected''))\<rparr>
      else s\<lparr>calls := calls s @ [prompt job], awaiting := awaiting s @ [(c, job)],
             running := Idle\<rparr>)"

text \<open>The rest of the \<open>try\<close> block, after the promise has settled (lines 84 to 93).\<close>

definition resume :: "closure \<Rightarrow> VideoJob \<Rightarrow> settled \<Rightarrow> int \<Rightarrow> App \<Rightarrow> App" where
  "resume c job outcome now s =
     (case outcome of
        Resolved result \<Rightarrow>
          s\<lparr>jobs := setCompleted job result now (jobs s), running := AtFinally c\<rparr>
      | Rejected message \<Rightarrow> s\<lparr>running := AtCatch c job message\<rparr>)"

text \<open>The \<open>catch\<close> block (lines 95 to 108).\<close>

definition catchBlock :: "closure \<Rightarrow> VideoJob \<Rightarrow> jsString option \<Rightarrow> App \<Rightarrow> App" where
  "catchBlock c job message s =
     s\<lparr>apiKeyReady := (if entityNotFound message then False else apiKeyReady s),
       jobs := setFailed job message (jobs s), running := AtFinally c\<rparr>"

text \<open>
  The \<open>finally\<close> block (lines 109 to 113).  The \<open>processQueue\<close> it calls is the function
  that is running, so the call has the same closure: the same \<open>jobs\<close> and \<open>apiKeyReady\<close>.
  Nothing follows the call, so the caller need not be remembered.
\<close>

definition finallyBlock :: "closure \<Rightarrow> App \<Rightarrow> App" where
  "finallyBlock c s = s\<lparr>processingRef := False, running := AtEntry c\<rparr>"

text \<open>The body of the effect (lines 116 to 118), run after a render of the current state.\<close>

definition effect :: "App \<Rightarrow> App" where
  "effect s =
     (if list_ex (\<lambda>j. status j = PENDING) (jobs s)
      then s\<lparr>running := AtEntry (jobs s, apiKeyReady s)\<rparr>
      else s)"

section \<open>The component as a transition system\<close>

text \<open>
  An event is a user action, a run of the effect, the settling of a client call, or one
  further block (\<open>Step\<close>) of the invocation that is executing.  Handlers run to completion:
  while an invocation is executing only \<open>Step\<close> can happen.  The effect may run after any
  render, so at any idle state, with the \<open>jobs\<close> and \<open>apiKeyReady\<close> of that state.  (A run
  of the effect inside a \<open>setJobs\<close> call of \<open>processQueue\<close> would find the guard set, as
  every such call is made between line 72 and line 110, and return at line 61.)

  \<open>AddJobs\<close> carries the values of \<open>crypto.randomUUID()\<close> and \<open>Date.now()\<close>, \<open>Settle\<close> the
  index of the suspended invocation, the end of the remote work and the value of
  \<open>Date.now()\<close>.  The identifiers are new ones and the clock does not run backwards;
  an event that would break this cannot happen (\<open>None\<close>).
\<close>

datatype event =
    Change jsString
  | AddJobs "nat \<Rightarrow> jsString" "nat \<Rightarrow> int"
  | Retry jsString
  | Delete jsString
  | ClearAll bool
  | Connect bool
  | InitCheck "bool option"
  | Effect
  | Settle nat remote int
  | Step

definition addJobsEvent :: "(nat \<Rightarrow> jsString) \<Rightarrow> (nat \<Rightarrow> int) \<Rightarrow> App \<Rightarrow> App option" where
  "addJobsEvent uuid now s =
     (let n = (if trim (inputPrompt s) = [] then 0 else length (nonBlankLines (inputPrompt s)));
          ids = map uuid [0..<n];
          times = clock s # map now [0..<n]
      in if distinct ids \<and> (\<forall>i \<in> set ids. i \<notin> set (issued s)) \<and> sorted times
         then Some ((handleAddJobs uuid now s)\<lparr>issued := issued s @ ids, clock := last times\<rparr>)
         else None)"

definition settleEvent :: "nat \<Rightarrow> remote \<Rightarrow> int \<Rightarrow> App \<Rightarrow> App option" where
  "settleEvent k r now s =
     (if k < length (awaiting s) \<and> clock s \<le> now
      then case awaiting s ! k of (c, job) \<Rightarrow>
        Some (resume c job (generateVideoWithVeo r) now
               (s\<lparr>awaiting := take k (awaiting s) @ drop (Suc k) (awaiting s), clock := now\<rparr>))
      else None)"

definition idleEvent :: "event \<Rightarrow> App \<Rightarrow> App option" where
  "idleEvent e s =
     (case e of
        Change text \<Rightarrow> Some (s\<lparr>inputPrompt := text\<rparr>)
      | AddJobs uuid now \<Rightarrow> addJobsEvent uuid now s
      | Retry i \<Rightarrow> Some (retryJob i s)
      | Delete i \<Rightarrow> Some (deleteJob i s)
      | ClearAll confirmed \<Rightarrow> Some (clearAll confirmed s)
      | Connect selected \<Rightarrow> Some (handleConnect selected s)
      | InitCheck hasKey \<Rightarrow>
          Some (case hasKey of None \<Rightarrow> s | Some b \<Rightarrow> s\<lparr>apiKeyReady := b\<rparr>)
      | Effect \<Rightarrow> Some (effect s)
      | Settle k r now \<Rightarrow> settleEvent k r now s
      | Step \<Rightarrow> None)"

definition isStep :: "event \<Rightarrow> bool" where
  "isStep e = (case e of Step \<Rightarrow> True | _ \<Rightarrow> False)"

definition step :: "event \<Rightarrow> App \<Rightarrow> App option" where
  "step e s =
     (case running s of
        Idle \<Rightarrow> idleEvent e s
      | AtEntry c \<Rightarrow> (if isStep e then Some (processQueue c s) else None)
      | AtTry c job \<Rightarrow> (if isStep e then Some (tryBlock c job s) else None)
      | AtCatch c job message \<Rightarrow> (if isStep e then Some (catchBlock c job message s) else None)
      | AtFinally c \<Rightarrow> (if isStep e then Some (finallyBlock c s) else None))"

fun run :: "event list \<Rightarrow> App \<Rightarrow> App option" where
  "run [] s = Some s"
| "run (e # es) s = (case step e s of None \<Rightarrow> None | Some s' \<Rightarrow> run es s')"


section \<open>One drain at a time\<close>

text \<open>
  The job that holds the single slot: the job of the invocation that is between its
  \<open>try\<close> and its \<open>finally\<close>, or else the job of the suspended invocation.
\<close>

definition holder :: "App \<Rightarrow> VideoJob option" where
  "holder s =
     (case running s of
        AtTry c job \<Rightarrow> Some job
      | AtCatch c job message \<Rightarrow> Some job
      | _ \<Rightarrow> (case awaiting s of [] \<Rightarrow> None | (c, job) # rest \<Rightarrow> Some job))"

text \<open>The invocation that is executing has taken the guard and not yet released it.\<close>

definition inBlock :: "control \<Rightarrow> bool" where
  "inBlock r = (case r of Idle \<Rightarrow> False | AtEntry c \<Rightarrow> False | _ \<Rightarrow> True)"

text \<open>
  The invariant of the guard: the identifiers of the store are distinct and were issued by
  \<open>crypto.randomUUID()\<close>, at most one invocation is suspended, the guard is set exactly
  while an invocation holds the slot, and a job with the status \<open>PROCESSING\<close> has the
  identifier of the holder.
\<close>

definition singleFlight :: "App \<Rightarrow> bool" where
  "singleFlight s \<longleftrightarrow>
     distinct (map id' (jobs s))
     \<and> set (map id' (jobs s)) \<subseteq> set (issued s)
     \<and> length (awaiting s) \<le> 1
     \<and> (awaiting s \<noteq> [] \<longrightarrow> processingRef s)
     \<and> (if inBlock (running s) then processingRef s \<and> awaiting s = []
         else processingRef s \<longrightarrow> awaiting s \<noteq> [])
     \<and> (\<forall>j \<in> set (jobs s). status j = PROCESSING \<longrightarrow>
           (case holder s of None \<Rightarrow> False | Some job \<Rightarrow> id' j = id' job))"

section \<open>Identifiers\<close>

text \<open>
  The identifiers that an invocation of \<open>processQueue\<close> carries: those of the jobs its
  closure captured and that of the job it selected.  All of them, and those of the store, were
  issued by \<open>crypto.randomUUID()\<close>.
\<close>

definition controlIds :: "control \<Rightarrow> jsString set" where
  "controlIds r =
     (case r of
        Idle \<Rightarrow> {}
      | AtEntry c \<Rightarrow> set (map id' (fst c))
      | AtTry c job \<Rightarrow> insert (id' job) (set (map id' (fst c)))
      | AtCatch c job message \<Rightarrow> insert (id' job) (set (map id' (fst c)))
      | AtFinally c \<Rightarrow> set (map id' (fst c)))"

definition knownIds :: "App \<Rightarrow> bool" where
  "knownIds s \<longleftrightarrow>
     set (map id' (jobs s)) \<subseteq> set (issued s)
     \<and> controlIds (running s) \<subseteq> set (issued s)
     \<and> (\<forall>(c, job) \<in> set (awaiting s). controlIds (AtTry c job) \<subseteq> set (issued s))"

text \<open>An identifier that was issued and is not in the store does not come back.\<close>

definition gone :: "jsString \<Rightarrow> App \<Rightarrow> bool" where
  "gone i s \<longleftrightarrow> i \<in> set (issued s) \<and> i \<notin> set (map id' (jobs s))"

section \<open>The drain and its closure\<close>

text \<open>The job that \<open>processQueue\<close> selects from a list: \<open>jobs[jobs.findIndex(...)]\<close>.\<close>

definition nextJob :: "VideoJob list \<Rightarrow> VideoJob option" where
  "nextJob xs = map_option (nth xs) (findIndex (\<lambda>j. status j = PENDING) xs)"

text \<open>
  A drain that is suspended at the client, for the job that its closure selects, with the
  key connected in the closure.
\<close>

definition stuck :: "closure \<Rightarrow> VideoJob \<Rightarrow> App \<Rightarrow> bool" where
  "stuck c job s \<longleftrightarrow>
     running s = Idle \<and> awaiting s = [(c, job)] \<and> processingRef s \<and> snd c
     \<and> nextJob (fst c) = Some job"


section \<open>Example states\<close>

definition jobA :: VideoJob where
  "jobA = newJob (js ''id-a'') (js ''prompt a'') 1"

definition jobB :: VideoJob where
  "jobB = newJob (js ''id-b'') (js ''prompt b'') 2"

definition jobC :: VideoJob where
  "jobC = newJob (js ''id-c'') (js ''prompt c'') 3"

text \<open>Three jobs added in the order A, B, C, all pending, the key connected.\<close>

definition threePending :: App where
  "threePending =
     \<lparr>apiKeyReady = True, inputPrompt = [], jobs = [jobA, jobB, jobC], isProcessing = False,
      processingRef = False, running = Idle, awaiting = [], calls = [],
      issued = [js ''id-a'', js ''id-b'', js ''id-c''], clock = 3\<rparr>"

definition video :: remote where
  "video = Downloaded (js ''blob:video'') [0, 1, 2]"

text \<open>One prompt is added with the key connected, and the client is called for it.\<close>

definition started :: "event list" where
  "started =
     [Connect True, Change (js ''a cat''), AddJobs (\<lambda>i. [of_nat i]) (\<lambda>i. int i),
      Effect, Step, Step]"


section \<open>Strings: facts\<close>

lemma trim_Nil_iff: "trim s = [] \<longleftrightarrow> (\<forall>c \<in> set s. isWhiteSpace c)"
proof
  assume "trim s = []"
  then have d: "dropWhile isWhiteSpace (rev (dropWhile isWhiteSpace s)) = []"
    by (simp add: trim_def)
  show "\<forall>c \<in> set s. isWhiteSpace c"
  proof (cases "dropWhile isWhiteSpace s")
    case Nil
    then show ?thesis by simp
  next
    case (Cons x xs)
    then have "\<not> isWhiteSpace x"
      using hd_dropWhile [of isWhiteSpace s] by simp
    moreover from d Cons have "isWhiteSpace x"
      by simp
    ultimately show ?thesis by simp
  qed
next
  assume "\<forall>c \<in> set s. isWhiteSpace c"
  then have "dropWhile isWhiteSpace s = []"
    by simp
  then have "trim s = rev (dropWhile isWhiteSpace (rev []))"
    by (simp only: trim_def)
  then show "trim s = []" by simp
qed

lemma splitLines_not_Nil: "splitLines s \<noteq> []"
  by (induction s) (auto split: list.splits)

lemma splitLines_subset: "line \<in> set (splitLines s) \<Longrightarrow> set line \<subseteq> set s"
proof (induction s arbitrary: line)
  case Nil
  then show ?case by simp
next
  case (Cons c cs)
  obtain l ls where sp: "splitLines cs = l # ls"
    using splitLines_not_Nil [of cs] by (cases "splitLines cs") auto
  show ?case
  proof (cases "c = 0x000A")
    case True
    with Cons show ?thesis by auto
  next
    case False
    with Cons.prems sp have "line = c # l \<or> line \<in> set ls" by simp
    then show ?thesis
    proof
      assume "line = c # l"
      moreover have "set l \<subseteq> set cs" using Cons.IH [of l] sp by simp
      ultimately show ?thesis by auto
    next
      assume "line \<in> set ls"
      then have "set line \<subseteq> set cs" using Cons.IH [of line] sp by simp
      then show ?thesis by auto
    qed
  qed
qed

lemma nonBlankLines_blank: "trim text = [] \<Longrightarrow> nonBlankLines text = []"
proof -
  assume "trim text = []"
  then have ws: "\<forall>c \<in> set text. isWhiteSpace c" by (simp add: trim_Nil_iff)
  have "\<forall>line \<in> set (splitLines text). trim line = []"
  proof
    fix line assume "line \<in> set (splitLines text)"
    then have "set line \<subseteq> set text" by (rule splitLines_subset)
    with ws show "trim line = []" by (auto simp: trim_Nil_iff)
  qed
  then show ?thesis by (simp add: nonBlankLines_def filter_empty_conv)
qed

lemma jobs_handleAddJobs:
  "jobs (handleAddJobs uuid now s) = jobs s @ newJobs uuid now (nonBlankLines (inputPrompt s))"
  by (simp add: handleAddJobs_def nonBlankLines_blank newJobs_def)

lemma map_enumerate_snd: "map (\<lambda>(i, x). f x) (enumerate n xs) = map f xs"
  by (induction xs arbitrary: n) simp_all

lemma prompt_newJobs: "map prompt (newJobs uuid now lines) = map trim lines"
proof -
  have "map prompt (newJobs uuid now lines) = map (\<lambda>(i, x). trim x) (enumerate 0 lines)"
    by (simp add: newJobs_def newJob_def case_prod_unfold)
  then show ?thesis by (simp only: map_enumerate_snd)
qed

lemma status_newJobs:
  "map status (newJobs uuid now lines) = replicate (length lines) PENDING"
proof -
  have "map status (newJobs uuid now lines) = map (\<lambda>(i, x). PENDING) (enumerate 0 lines)"
    by (simp add: newJobs_def newJob_def case_prod_unfold)
  then show ?thesis by (simp only: map_enumerate_snd map_replicate_const)
qed

section \<open>The transitions, case by case\<close>


lemma processQueue_busy: "processingRef s \<Longrightarrow> processQueue c s = s\<lparr>running := Idle\<rparr>"
  by (simp add: processQueue_def)

lemma step_cases [consumes 1, case_names Change AddJobs Retry Delete ClearAll Connect InitCheck
    Effect Settle Entry Try Catch Finally]:
  assumes "step e s = Some s'"
  obtains
    (Change) t where "running s = Idle" "s' = s\<lparr>inputPrompt := t\<rparr>"
  | (AddJobs) uuid now where "running s = Idle" "addJobsEvent uuid now s = Some s'"
  | (Retry) i where "running s = Idle" "s' = retryJob i s"
  | (Delete) i where "running s = Idle" "s' = deleteJob i s"
  | (ClearAll) b where "running s = Idle" "s' = clearAll b s"
  | (Connect) b where "running s = Idle" "s' = handleConnect b s"
  | (InitCheck) h where "running s = Idle" "s' = (case h of None \<Rightarrow> s | Some b \<Rightarrow> s\<lparr>apiKeyReady := b\<rparr>)"
  | (Effect) "running s = Idle" "s' = effect s"
  | (Settle) k r now where "running s = Idle" "settleEvent k r now s = Some s'"
  | (Entry) c where "running s = AtEntry c" "s' = processQueue c s"
  | (Try) c job where "running s = AtTry c job" "s' = tryBlock c job s"
  | (Catch) c job m where "running s = AtCatch c job m" "s' = catchBlock c job m s"
  | (Finally) c where "running s = AtFinally c" "s' = finallyBlock c s"
proof (cases "running s")
  case Idle
  with assms have "idleEvent e s = Some s'" by (simp add: step_def)
  with Idle show ?thesis
    by (cases e) (auto simp: idleEvent_def intro: that)
next
  case (AtEntry c)
  with assms show ?thesis by (auto simp: step_def split: if_splits intro: that)
next
  case (AtTry c job)
  with assms show ?thesis by (auto simp: step_def split: if_splits intro: that)
next
  case (AtCatch c job m)
  with assms show ?thesis by (auto simp: step_def split: if_splits intro: that)
next
  case (AtFinally c)
  with assms show ?thesis by (auto simp: step_def split: if_splits intro: that)
qed

section \<open>The fields of completed and failed jobs\<close>

text \<open>
  C5 fails on the code.  The write of \<open>COMPLETED\<close> leaves \<open>error\<close> as it is and the write of
  \<open>FAILED\<close> leaves the video as it is; only \<open>retryJob\<close> clears the error.  But the \<open>finally\<close>
  block runs \<open>processQueue\<close> again for the same job, with no retry in between.  So when the
  client first rejects with "boom" and then delivers, the job is \<open>COMPLETED\<close> and has the
  error "boom"; when it first delivers and then rejects, the job is \<open>FAILED\<close> and has the
  video.
\<close>

theorem settled_job_keeps_other_field:
  "map_option (\<lambda>s. map (\<lambda>j. (status j, error j)) (jobs s))
     (run (started @ [Settle 0 (ApiThrows (Some (js ''boom''))) 5, Step, Step, Step, Step,
                      Settle 0 video 7]) (initial 0))
   = Some [(COMPLETED, Some (js ''boom''))]
   \<and> map_option (\<lambda>s. map (\<lambda>j. (status j, videoUrl j)) (jobs s))
     (run (started @ [Settle 0 video 5, Step, Step, Step,
                      Settle 0 (ApiThrows (Some (js ''boom''))) 7, Step]) (initial 0))
   = Some [(FAILED, Some (js ''blob:video''))]"
  by code_simp

section \<open>The guard\<close>

lemma singleFlightI:
  assumes "distinct (map id' (jobs s))"
    and "set (map id' (jobs s)) \<subseteq> set (issued s)"
    and "length (awaiting s) \<le> 1"
    and "awaiting s \<noteq> [] \<Longrightarrow> processingRef s"
    and "inBlock (running s) \<Longrightarrow> processingRef s \<and> awaiting s = []"
    and "\<not> inBlock (running s) \<Longrightarrow> processingRef s \<Longrightarrow> awaiting s \<noteq> []"
    and "\<And>j. j \<in> set (jobs s) \<Longrightarrow> status j = PROCESSING \<Longrightarrow> \<exists>job. holder s = Some job \<and> id' j = id' job"
  shows "singleFlight s"
  unfolding singleFlight_def using assms by (fastforce split: option.splits)

lemma singleFlightD:
  assumes "singleFlight s"
  shows "distinct (map id' (jobs s))"
    and "set (map id' (jobs s)) \<subseteq> set (issued s)"
    and "length (awaiting s) \<le> 1"
    and "awaiting s \<noteq> [] \<Longrightarrow> processingRef s"
    and "inBlock (running s) \<Longrightarrow> processingRef s \<and> awaiting s = []"
    and "\<not> inBlock (running s) \<Longrightarrow> processingRef s \<Longrightarrow> awaiting s \<noteq> []"
    and "\<And>j. j \<in> set (jobs s) \<Longrightarrow> status j = PROCESSING \<Longrightarrow> \<exists>job. holder s = Some job \<and> id' j = id' job"
  using assms unfolding singleFlight_def by (auto split: option.splits if_splits)

lemma ids_setProcessing [simp]: "map id' (setProcessing job xs) = map id' xs"
  by (induction xs) (simp_all add: setProcessing_def)

lemma ids_setCompleted [simp]: "map id' (setCompleted job r now xs) = map id' xs"
  by (induction xs) (simp_all add: setCompleted_def)

lemma ids_setFailed [simp]: "map id' (setFailed job m xs) = map id' xs"
  by (induction xs) (simp_all add: setFailed_def)

lemma ids_retry [simp]:
  "map id' (map (\<lambda>j. if id' j = i then j\<lparr>status := PENDING, error := None\<rparr> else j) xs) = map id' xs"
  by (induction xs) simp_all

lemma processing_setProcessing:
  "j \<in> set (setProcessing job xs) \<Longrightarrow> status j = PROCESSING \<Longrightarrow>
   id' j = id' job \<or> (j \<in> set xs \<and> status j = PROCESSING)"
  by (auto simp: setProcessing_def split: if_splits)

lemma processing_setCompleted:
  "j \<in> set (setCompleted job r now xs) \<Longrightarrow> status j = PROCESSING \<Longrightarrow>
   j \<in> set xs \<and> id' j \<noteq> id' job"
  by (auto simp: setCompleted_def split: if_splits)

lemma processing_setFailed:
  "j \<in> set (setFailed job m xs) \<Longrightarrow> status j = PROCESSING \<Longrightarrow>
   j \<in> set xs \<and> id' j \<noteq> id' job"
  by (auto simp: setFailed_def split: if_splits)

lemma processing_retry:
  "j \<in> set (jobs (retryJob i s)) \<Longrightarrow> status j = PROCESSING \<Longrightarrow> j \<in> set (jobs s)"
  by (auto simp: retryJob_def split: if_splits)

lemma singleFlight_entry:
  assumes "singleFlight s" "running s = AtEntry c"
  shows "singleFlight (processQueue c s)"
proof (cases "processingRef s")
  case True
  then have eq: "processQueue c s = s\<lparr>running := Idle\<rparr>" by (rule processQueue_busy)
  show ?thesis
    unfolding eq using singleFlightD [OF assms(1)] assms(2)
    by (intro singleFlightI) (simp_all add: inBlock_def holder_def)
next
  case False
  with singleFlightD(4) [OF assms(1)] have aw: "awaiting s = []" by auto
  with assms(2) have h: "holder s = None" by (simp add: holder_def)
  with singleFlightD(7) [OF assms(1)] have none: "\<And>j. j \<in> set (jobs s) \<Longrightarrow> status j \<noteq> PROCESSING"
    by auto
  show ?thesis
  proof (cases "findIndex (\<lambda>j. status j = PENDING) (fst c)")
    case None
    with False have eq: "processQueue c s = s\<lparr>isProcessing := False, running := Idle\<rparr>"
      by (simp add: processQueue_def)
    show ?thesis
      unfolding eq using singleFlightD [OF assms(1)] assms(2) False
      by (intro singleFlightI) (simp_all add: inBlock_def holder_def)
  next
    case (Some n)
    with False have eq: "processQueue c s =
        s\<lparr>processingRef := True, isProcessing := True,
          jobs := setProcessing (fst c ! n) (jobs s), running := AtTry c (fst c ! n)\<rparr>"
      by (simp add: processQueue_def Let_def)
    show ?thesis
      unfolding eq using singleFlightD(1-3) [OF assms(1)] aw none
      by (intro singleFlightI)
        (auto simp: inBlock_def holder_def dest!: processing_setProcessing)
  qed
qed

lemma singleFlight_try:
  assumes "singleFlight s" "running s = AtTry c job"
  shows "singleFlight (tryBlock c job s)"
proof -
  from singleFlightD(5) [OF assms(1)] assms(2) have r: "processingRef s" and aw: "awaiting s = []"
    by (simp_all add: inBlock_def)
  from singleFlightD(7) [OF assms(1)] assms(2)
  have own: "\<And>j. j \<in> set (jobs s) \<Longrightarrow> status j = PROCESSING \<Longrightarrow> id' j = id' job"
    by (auto simp: holder_def)
  show ?thesis
  proof (cases "snd c")
    case True
    then have eq: "tryBlock c job s =
        s\<lparr>calls := calls s @ [prompt job], awaiting := awaiting s @ [(c, job)], running := Idle\<rparr>"
      by (simp add: tryBlock_def)
    show ?thesis
      unfolding eq using singleFlightD(1-2) [OF assms(1)] r aw own
      by (intro singleFlightI) (auto simp: inBlock_def holder_def)
  next
    case False
    then have eq: "tryBlock c job s =
        s\<lparr>running := AtCatch c job (Some (js ''API Key not connected''))\<rparr>"
      by (simp add: tryBlock_def)
    show ?thesis
      unfolding eq using singleFlightD(1-2) [OF assms(1)] r aw own
      by (intro singleFlightI) (auto simp: inBlock_def holder_def)
  qed
qed

lemma singleFlight_catch:
  assumes "singleFlight s" "running s = AtCatch c job m"
  shows "singleFlight (catchBlock c job m s)"
proof -
  from singleFlightD(5) [OF assms(1)] assms(2) have r: "processingRef s" and aw: "awaiting s = []"
    by (simp_all add: inBlock_def)
  from singleFlightD(7) [OF assms(1)] assms(2)
  have own: "\<And>j. j \<in> set (jobs s) \<Longrightarrow> status j = PROCESSING \<Longrightarrow> id' j = id' job"
    by (auto simp: holder_def)
  show ?thesis
    using singleFlightD(1-2) [OF assms(1)] r aw own
    by (intro singleFlightI)
      (auto simp: catchBlock_def inBlock_def holder_def dest!: processing_setFailed)
qed

lemma singleFlight_finally:
  assumes "singleFlight s" "running s = AtFinally c"
  shows "singleFlight (finallyBlock c s)"
proof -
  from singleFlightD(5) [OF assms(1)] assms(2) have aw: "awaiting s = []"
    by (simp_all add: inBlock_def)
  with singleFlightD(7) [OF assms(1)] assms(2)
  have none: "\<And>j. j \<in> set (jobs s) \<Longrightarrow> status j \<noteq> PROCESSING"
    by (auto simp: holder_def)
  show ?thesis
    using singleFlightD(1-2) [OF assms(1)] aw none
    by (intro singleFlightI) (auto simp: finallyBlock_def inBlock_def holder_def)
qed


lemma singleFlight_settle:
  assumes "singleFlight s" "running s = Idle" "settleEvent k r now s = Some s'"
  shows "singleFlight s'"
proof -
  from assms(3) have k: "k < length (awaiting s)"
    by (simp add: settleEvent_def split: if_splits)
  with singleFlightD(3) [OF assms(1)] obtain c job where aw: "awaiting s = [(c, job)]" and k0: "k = 0"
    by (cases "awaiting s") auto
  with singleFlightD(4) [OF assms(1)] have r: "processingRef s" by simp
  from singleFlightD(7) [OF assms(1)] assms(2) aw
  have own: "\<And>j. j \<in> set (jobs s) \<Longrightarrow> status j = PROCESSING \<Longrightarrow> id' j = id' job"
    by (auto simp: holder_def)
  from assms(3) aw k0
  have s': "s' = resume c job (generateVideoWithVeo r) now (s\<lparr>awaiting := [], clock := now\<rparr>)"
    by (simp add: settleEvent_def split: if_splits)
  show ?thesis
  proof (cases "generateVideoWithVeo r")
    case (Resolved result)
    with s' have eq: "s' = s\<lparr>awaiting := [], clock := now,
        jobs := setCompleted job result now (jobs s), running := AtFinally c\<rparr>"
      by (simp add: resume_def)
    show ?thesis
      unfolding eq using singleFlightD(1-2) [OF assms(1)] r own
      by (intro singleFlightI) (auto simp: inBlock_def holder_def dest!: processing_setCompleted)
  next
    case (Rejected m)
    with s' have eq: "s' = s\<lparr>awaiting := [], clock := now, running := AtCatch c job m\<rparr>"
      by (simp add: resume_def)
    show ?thesis
      unfolding eq using singleFlightD(1-2) [OF assms(1)] r own
      by (intro singleFlightI) (auto simp: inBlock_def holder_def)
  qed
qed

lemma map_enumerate_fst: "map (\<lambda>(i, x). f i) (enumerate n xs) = map f [n..<n + length xs]"
proof (induction xs arbitrary: n)
  case Nil
  then show ?case by simp
next
  case (Cons x xs)
  have "[n..<n + length (x # xs)] = n # [Suc n..<Suc n + length xs]"
    by (simp add: upt_rec)
  with Cons show ?case by simp
qed

lemma ids_newJobs: "map id' (newJobs uuid now lines) = map uuid [0..<length lines]"
proof -
  have "map id' (newJobs uuid now lines) = map (\<lambda>(i, x). uuid i) (enumerate 0 lines)"
    by (simp add: newJobs_def newJob_def case_prod_unfold)
  then show ?thesis by (simp only: map_enumerate_fst add_0)
qed

lemma pending_newJobs: "j \<in> set (newJobs uuid now lines) \<Longrightarrow> status j = PENDING"
  by (auto simp: newJobs_def newJob_def)

lemma singleFlight_addJobs:
  assumes "singleFlight s" "running s = Idle" "addJobsEvent uuid now s = Some s'"
  shows "singleFlight s'"
proof -
  define n where "n = (if trim (inputPrompt s) = [] then 0 else length (nonBlankLines (inputPrompt s)))"
  from assms(3) have d: "distinct (map uuid [0..<n])"
    and fresh: "\<forall>i \<in> set (map uuid [0..<n]). i \<notin> set (issued s)"
    and s': "s' = (handleAddJobs uuid now s)\<lparr>issued := issued s @ map uuid [0..<n],
                  clock := last (clock s # map now [0..<n])\<rparr>"
    by (auto simp: addJobsEvent_def Let_def n_def split: if_splits)
  have len: "length (nonBlankLines (inputPrompt s)) = n"
    by (simp add: n_def nonBlankLines_blank)
  have js: "jobs s' = jobs s @ newJobs uuid now (nonBlankLines (inputPrompt s))"
    by (simp add: s' jobs_handleAddJobs)
  have ids: "map id' (jobs s') = map id' (jobs s) @ map uuid [0..<n]"
    by (simp add: js ids_newJobs len)
  have rest: "running s' = running s" "awaiting s' = awaiting s" "processingRef s' = processingRef s"
    "issued s' = issued s @ map uuid [0..<n]"
    by (simp_all add: s' handleAddJobs_def)
  have h: "holder s' = holder s" unfolding holder_def rest by (rule refl)
  show ?thesis
  proof (intro singleFlightI)
    show "distinct (map id' (jobs s'))"
      unfolding ids using singleFlightD(1,2) [OF assms(1)] d fresh by auto
    show "set (map id' (jobs s')) \<subseteq> set (issued s')"
      unfolding ids rest using singleFlightD(2) [OF assms(1)] by auto
    show "\<exists>job. holder s' = Some job \<and> id' j = id' job"
      if "j \<in> set (jobs s')" "status j = PROCESSING" for j
    proof -
      from that js pending_newJobs have "j \<in> set (jobs s)" by fastforce
      with that(2) singleFlightD(7) [OF assms(1)] h show ?thesis by simp
    qed
  qed (use singleFlightD(3-6) [OF assms(1)] rest in auto)
qed

lemma singleFlight_frame:
  assumes inv: "singleFlight s"
    and d: "distinct (map id' (jobs s'))"
    and ids: "set (map id' (jobs s')) \<subseteq> set (map id' (jobs s))"
    and same: "issued s' = issued s" "awaiting s' = awaiting s" "processingRef s' = processingRef s"
      "inBlock (running s') = inBlock (running s)" "holder s' = holder s"
    and pr: "\<And>j. j \<in> set (jobs s') \<Longrightarrow> status j = PROCESSING \<Longrightarrow>
               \<exists>j' \<in> set (jobs s). status j' = PROCESSING \<and> id' j' = id' j"
  shows "singleFlight s'"
proof (intro singleFlightI)
  note D = singleFlightD [OF inv]
  show "distinct (map id' (jobs s'))" by (rule d)
  show "set (map id' (jobs s')) \<subseteq> set (issued s')"
    using ids D(2) unfolding same by (rule subset_trans)
  show "length (awaiting s') \<le> 1" using D(3) by (simp add: same)
  show "processingRef s'" if "awaiting s' \<noteq> []"
  proof -
    from that have "awaiting s \<noteq> []" by (simp add: same)
    then have "processingRef s" by (rule D(4))
    then show ?thesis by (simp add: same)
  qed
  show "processingRef s' \<and> awaiting s' = []" if "inBlock (running s')"
  proof -
    from that have "inBlock (running s)" by (simp add: same)
    then have "processingRef s \<and> awaiting s = []" by (rule D(5))
    then show ?thesis by (simp add: same)
  qed
  show "awaiting s' \<noteq> []" if "\<not> inBlock (running s')" "processingRef s'"
  proof -
    from that have "\<not> inBlock (running s)" "processingRef s" by (simp_all add: same)
    then have "awaiting s \<noteq> []" by (rule D(6))
    then show ?thesis by (simp add: same)
  qed
  show "\<exists>job. holder s' = Some job \<and> id' j = id' job" if "j \<in> set (jobs s')" "status j = PROCESSING" for j
  proof -
    from pr [OF that] obtain j' where j': "j' \<in> set (jobs s)" "status j' = PROCESSING" "id' j' = id' j"
      by blast
    from D(7) [OF j'(1,2)] obtain job where "holder s = Some job" "id' j' = id' job" by blast
    with j'(3) show ?thesis by (simp add: same)
  qed
qed

lemma ids_retryJob: "map id' (jobs (retryJob i s)) = map id' (jobs s)"
  by (simp add: retryJob_def del: map_map)

lemma singleFlight_change:
  assumes inv: "singleFlight s" and idle: "running s = Idle"
  shows "singleFlight (s\<lparr>inputPrompt := t\<rparr>)"
  using inv by (rule singleFlight_frame) (auto simp: singleFlightD(1) [OF inv] holder_def idle)

lemma singleFlight_retry:
  assumes inv: "singleFlight s" and idle: "running s = Idle"
  shows "singleFlight (retryJob i s)"
  using inv
proof (rule singleFlight_frame)
  show "\<exists>j'\<in>set (jobs s). status j' = PROCESSING \<and> id' j' = id' j"
    if "j \<in> set (jobs (retryJob i s))" "status j = PROCESSING" for j
    using processing_retry [OF that] that(2) by blast
  show "holder (retryJob i s) = holder s"
    by (simp add: holder_def retryJob_def idle)
  show "distinct (map id' (jobs (retryJob i s)))"
    using singleFlightD(1) [OF inv] by (simp only: ids_retryJob)
  show "set (map id' (jobs (retryJob i s))) \<subseteq> set (map id' (jobs s))"
    by (simp only: ids_retryJob subset_refl)
qed (simp_all add: retryJob_def)

lemma singleFlight_delete:
  assumes inv: "singleFlight s" and idle: "running s = Idle"
  shows "singleFlight (deleteJob i s)"
  using inv
proof (rule singleFlight_frame)
  show "\<exists>j'\<in>set (jobs s). status j' = PROCESSING \<and> id' j' = id' j"
    if "j \<in> set (jobs (deleteJob i s))" "status j = PROCESSING" for j
    using that by (auto simp: deleteJob_def)
  show "set (map id' (jobs (deleteJob i s))) \<subseteq> set (map id' (jobs s))"
    by (auto simp: deleteJob_def)
  show "holder (deleteJob i s) = holder s"
    by (simp add: holder_def deleteJob_def idle)
  show "distinct (map id' (jobs (deleteJob i s)))"
    using singleFlightD(1) [OF inv] by (simp add: deleteJob_def distinct_map_filter)
qed (simp_all add: deleteJob_def)

lemma singleFlight_clear:
  assumes inv: "singleFlight s" and idle: "running s = Idle"
  shows "singleFlight (clearAll b s)"
proof (cases b)
  case True
  then have eq: "clearAll b s = s\<lparr>jobs := []\<rparr>" by (simp add: clearAll_def)
  show ?thesis
    unfolding eq using inv by (rule singleFlight_frame) (simp_all add: holder_def idle)
next
  case False
  with inv show ?thesis by (simp add: clearAll_def)
qed

lemma singleFlight_apiKeyReady:
  assumes inv: "singleFlight s" and idle: "running s = Idle"
  shows "singleFlight (s\<lparr>apiKeyReady := b\<rparr>)"
  using inv by (rule singleFlight_frame) (auto simp: singleFlightD(1) [OF inv] holder_def idle)

lemma singleFlight_connect: "singleFlight s \<Longrightarrow> running s = Idle \<Longrightarrow> singleFlight (handleConnect b s)"
  by (simp add: handleConnect_def singleFlight_apiKeyReady)

lemma singleFlight_initCheck: "singleFlight s \<Longrightarrow> running s = Idle \<Longrightarrow>
    singleFlight (case h of None \<Rightarrow> s | Some b \<Rightarrow> s\<lparr>apiKeyReady := b\<rparr>)"
  by (cases h) (simp_all add: singleFlight_apiKeyReady)

lemma singleFlight_effect:
  assumes inv: "singleFlight s" and idle: "running s = Idle"
  shows "singleFlight (effect s)"
proof (cases "list_ex (\<lambda>j. status j = PENDING) (jobs s)")
  case True
  then have eq: "effect s = s\<lparr>running := AtEntry (jobs s, apiKeyReady s)\<rparr>"
    by (simp add: effect_def)
  show ?thesis
    unfolding eq using inv
    by (rule singleFlight_frame) (auto simp: singleFlightD(1) [OF inv] holder_def inBlock_def idle)
next
  case False
  then have "effect s = s" by (simp add: effect_def)
  with inv show ?thesis by simp
qed


lemma singleFlight_step:
  assumes "singleFlight s" "step e s = Some s'"
  shows "singleFlight s'"
  using assms(2)
proof (cases rule: step_cases)
  case (Change t)
  with assms(1) show ?thesis by (simp add: singleFlight_change)
next
  case (AddJobs uuid now)
  with assms(1) show ?thesis by (auto intro: singleFlight_addJobs)
next
  case (Retry i)
  with assms(1) show ?thesis by (simp add: singleFlight_retry)
next
  case (Delete i)
  with assms(1) show ?thesis by (simp add: singleFlight_delete)
next
  case (ClearAll b)
  with assms(1) show ?thesis by (simp add: singleFlight_clear)
next
  case (Connect b)
  with assms(1) show ?thesis by (simp add: singleFlight_connect)
next
  case (InitCheck h)
  with assms(1) show ?thesis by (simp add: singleFlight_initCheck)
next
  case Effect
  with assms(1) show ?thesis by (simp add: singleFlight_effect)
next
  case (Settle k r now)
  with assms(1) show ?thesis by (auto intro: singleFlight_settle)
next
  case (Entry c)
  with assms(1) show ?thesis by (auto intro: singleFlight_entry)
next
  case (Try c job)
  with assms(1) show ?thesis by (auto intro: singleFlight_try)
next
  case (Catch c job m)
  with assms(1) show ?thesis by (auto intro: singleFlight_catch)
next
  case (Finally c)
  with assms(1) show ?thesis by (auto intro: singleFlight_finally)
qed

lemma singleFlight_run: "singleFlight s \<Longrightarrow> run es s = Some s' \<Longrightarrow> singleFlight s'"
proof (induction es arbitrary: s)
  case Nil
  then show ?case by simp
next
  case (Cons e es)
  then show ?case by (auto split: option.splits dest: singleFlight_step)
qed

lemma singleFlight_initial: "singleFlight (initial t0)"
  by (simp add: singleFlight_def initial_def inBlock_def)

lemma at_most_one:
  assumes "distinct (map f xs)" and "\<And>x. x \<in> set xs \<Longrightarrow> P x \<Longrightarrow> f x = a"
  shows "length (filter P xs) \<le> 1"
  using assms
proof (induction xs)
  case Nil
  then show ?case by simp
next
  case (Cons x xs)
  show ?case
  proof (cases "P x")
    case True
    with Cons.prems have "f x = a" by simp
    with Cons.prems have "\<And>y. y \<in> set xs \<Longrightarrow> \<not> P y" by (metis distinct.simps(2) image_eqI list.set_intros(2) list.simps(9) set_map)
    then have "filter P xs = []" by (simp add: filter_empty_conv)
    with True show ?thesis by simp
  next
    case False
    with Cons show ?thesis by simp
  qed
qed

text \<open>
  C1: in every state the component reaches, at every block of \<open>processQueue\<close>, at most
  one job of the store has the status \<open>PROCESSING\<close> and at most one call of the client is
  in flight; while a call is in flight, an entry into \<open>processQueue\<close>, with whatever
  closure, returns at the guard: it selects no job, changes no job and calls nothing.
\<close>

theorem single_flight:
  assumes "run es (initial t0) = Some s"
  shows "length (filter (\<lambda>j. status j = PROCESSING) (jobs s)) \<le> 1
    \<and> length (awaiting s) \<le> 1
    \<and> (awaiting s \<noteq> [] \<longrightarrow> (\<forall>c. processQueue c s = s\<lparr>running := Idle\<rparr>))"
proof -
  have inv: "singleFlight s" using singleFlight_initial assms by (rule singleFlight_run)
  have "length (filter (\<lambda>j. status j = PROCESSING) (jobs s)) \<le> 1"
  proof (cases "holder s")
    case None
    with singleFlightD(7) [OF inv] have "filter (\<lambda>j. status j = PROCESSING) (jobs s) = []"
      by (auto simp: filter_empty_conv)
    then show ?thesis by simp
  next
    case (Some job)
    with singleFlightD(7) [OF inv]
    have "\<And>j. j \<in> set (jobs s) \<Longrightarrow> status j = PROCESSING \<Longrightarrow> id' j = id' job" by auto
    with singleFlightD(1) [OF inv] show ?thesis by (rule at_most_one)
  qed
  moreover have "processQueue c s = s\<lparr>running := Idle\<rparr>" if "awaiting s \<noteq> []" for c
    using singleFlightD(4) [OF inv that] by (rule processQueue_busy)
  ultimately show ?thesis using singleFlightD(3) [OF inv] by blast
qed

text \<open>After \<open>started\<close> one job is being processed and one call is in flight.\<close>

theorem single_flight_witness:
  "\<exists>s. run started (initial 0) = Some s
     \<and> map status (jobs s) = [PROCESSING] \<and> length (awaiting s) = 1
     \<and> length (filter (\<lambda>j. status j = PROCESSING) (jobs s)) \<le> 1
     \<and> processQueue (jobs s, True) s = s\<lparr>running := Idle\<rparr>"
proof -
  have "map_option (\<lambda>s. (map status (jobs s), length (awaiting s))) (run started (initial 0))
        = Some ([PROCESSING], 1)"
    by code_simp
  then obtain s where r: "run started (initial 0) = Some s"
    and st: "map status (jobs s) = [PROCESSING]" "length (awaiting s) = 1"
    by auto
  from st(2) have "awaiting s \<noteq> []" by auto
  with single_flight [OF r] r st show ?thesis by auto
qed

section \<open>Deleting the job that is being processed\<close>

lemma idset_setProcessing [simp]: "id' ` set (setProcessing job xs) = id' ` set xs"
  by (simp flip: set_map)

lemma idset_setCompleted [simp]: "id' ` set (setCompleted job r now xs) = id' ` set xs"
  by (simp flip: set_map)

lemma idset_setFailed [simp]: "id' ` set (setFailed job m xs) = id' ` set xs"
  by (simp flip: set_map)

lemma findIndex_Some:
  "findIndex p xs = Some n \<Longrightarrow> n < length xs \<and> p (xs ! n) \<and> (\<forall>k < n. \<not> p (xs ! k))"
proof (induction xs arbitrary: n)
  case Nil
  then show ?case by simp
next
  case (Cons x xs)
  show ?case
  proof (cases "p x")
    case True
    with Cons.prems show ?thesis by simp
  next
    case False
    with Cons.prems obtain m where m: "findIndex p xs = Some m" "n = Suc m" by auto
    from Cons.IH [OF m(1)] False m(2) show ?thesis
      by (auto simp: nth_Cons split: nat.splits)
  qed
qed

lemma knownIds_addJobs:
  assumes "knownIds s" "addJobsEvent uuid now s = Some s'"
  shows "knownIds s'"
proof -
  define n where "n = (if trim (inputPrompt s) = [] then 0 else length (nonBlankLines (inputPrompt s)))"
  from assms(2)
  have s': "s' = (handleAddJobs uuid now s)\<lparr>issued := issued s @ map uuid [0..<n],
                  clock := last (clock s # map now [0..<n])\<rparr>"
    by (auto simp: addJobsEvent_def Let_def n_def split: if_splits)
  have len: "length (nonBlankLines (inputPrompt s)) = n"
    by (simp add: n_def nonBlankLines_blank)
  have ids: "map id' (jobs s') = map id' (jobs s) @ map uuid [0..<n]"
    by (simp add: s' jobs_handleAddJobs ids_newJobs len)
  have rest: "running s' = running s" "awaiting s' = awaiting s"
    "issued s' = issued s @ map uuid [0..<n]"
    by (simp_all add: s' handleAddJobs_def)
  from assms(1) show ?thesis
    unfolding knownIds_def ids rest by auto
qed

lemma knownIds_settle:
  assumes "knownIds s" "settleEvent k r now s = Some s'"
  shows "knownIds s'"
proof -
  obtain c job where cj: "awaiting s ! k = (c, job)" by (cases "awaiting s ! k")
  define rest where "rest = take k (awaiting s) @ drop (Suc k) (awaiting s)"
  from assms(2) have k: "k < length (awaiting s)"
    and s': "s' = resume c job (generateVideoWithVeo r) now (s\<lparr>awaiting := rest, clock := now\<rparr>)"
    by (auto simp: settleEvent_def cj rest_def split: if_splits)
  from k cj have mem: "(c, job) \<in> set (awaiting s)" by (metis nth_mem)
  have "set rest \<subseteq> set (awaiting s)"
    unfolding rest_def by (auto dest: in_set_takeD in_set_dropD)
  with assms(1) have aw: "\<forall>(c, job) \<in> set rest. controlIds (AtTry c job) \<subseteq> set (issued s)"
    unfolding knownIds_def by blast
  from assms(1) mem have "controlIds (AtTry c job) \<subseteq> set (issued s)"
    unfolding knownIds_def by blast
  then have cj_ok: "controlIds (AtCatch c job m) \<subseteq> set (issued s)"
    "controlIds (AtFinally c) \<subseteq> set (issued s)" for m
    by (auto simp: controlIds_def)
  from assms(1) have st: "set (map id' (jobs s)) \<subseteq> set (issued s)"
    by (simp add: knownIds_def)
  show ?thesis
  proof (cases "generateVideoWithVeo r")
    case (Resolved result)
    with s' have eq: "s' = s\<lparr>awaiting := rest, clock := now,
        jobs := setCompleted job result now (jobs s), running := AtFinally c\<rparr>"
      by (simp add: resume_def)
    show ?thesis
      unfolding eq knownIds_def using st aw cj_ok(2) by simp
  next
    case (Rejected m)
    with s' have eq: "s' = s\<lparr>awaiting := rest, clock := now, running := AtCatch c job m\<rparr>"
      by (simp add: resume_def)
    show ?thesis
      unfolding eq knownIds_def using st aw cj_ok(1) by simp
  qed
qed

lemma knownIds_entry:
  assumes "knownIds s" "running s = AtEntry c"
  shows "knownIds (processQueue c s)"
proof (cases "processingRef s")
  case True
  with assms show ?thesis by (simp add: processQueue_busy knownIds_def controlIds_def)
next
  case False
  show ?thesis
  proof (cases "findIndex (\<lambda>j. status j = PENDING) (fst c)")
    case None
    with False assms show ?thesis by (simp add: processQueue_def knownIds_def controlIds_def)
  next
    case (Some n)
    then have "fst c ! n \<in> set (fst c)" using findIndex_Some [OF Some] by simp
    with Some False assms show ?thesis
      by (auto simp: processQueue_def knownIds_def controlIds_def Let_def)
  qed
qed

lemma knownIds_step:
  assumes "knownIds s" "step e s = Some s'"
  shows "knownIds s'"
  using assms(2)
proof (cases rule: step_cases)
  case (AddJobs uuid now)
  with assms(1) show ?thesis by (auto intro: knownIds_addJobs)
next
  case (Settle k r now)
  with assms(1) show ?thesis by (auto intro: knownIds_settle)
next
  case (Entry c)
  with assms(1) show ?thesis by (auto intro: knownIds_entry)
next
  case (Retry i)
  with assms(1) show ?thesis by (simp add: knownIds_def retryJob_def ids_retry del: map_map)
next
  case (Delete i)
  with assms(1) show ?thesis by (auto simp: knownIds_def deleteJob_def)
next
  case (ClearAll b)
  with assms(1) show ?thesis by (cases b) (simp_all add: knownIds_def clearAll_def controlIds_def)
next
  case (Connect b)
  with assms(1) show ?thesis by (cases b) (simp_all add: knownIds_def handleConnect_def)
next
  case (InitCheck h)
  with assms(1) show ?thesis by (cases h) (simp_all add: knownIds_def)
next
  case Effect
  with assms(1) show ?thesis
    by (cases "list_ex (\<lambda>j. status j = PENDING) (jobs s)")
      (simp_all add: knownIds_def effect_def controlIds_def)
next
  case (Try c job)
  with assms(1) show ?thesis
    by (cases "snd c") (simp_all add: knownIds_def tryBlock_def controlIds_def)
next
  case (Catch c job m)
  with assms(1) show ?thesis by (simp add: knownIds_def catchBlock_def controlIds_def)
next
  case (Finally c)
  with assms(1) show ?thesis by (simp add: knownIds_def finallyBlock_def controlIds_def)
next
  case (Change t)
  with assms(1) show ?thesis by (simp add: knownIds_def)
qed

lemma knownIds_run: "knownIds s \<Longrightarrow> run es s = Some s' \<Longrightarrow> knownIds s'"
proof (induction es arbitrary: s)
  case Nil
  then show ?case by simp
next
  case (Cons e es)
  then show ?case by (auto split: option.splits dest: knownIds_step)
qed

lemma knownIds_initial: "knownIds (initial t0)"
  by (simp add: knownIds_def initial_def controlIds_def)

lemma gone_addJobs:
  assumes "gone i s" "addJobsEvent uuid now s = Some s'"
  shows "gone i s'"
proof -
  define n where "n = (if trim (inputPrompt s) = [] then 0 else length (nonBlankLines (inputPrompt s)))"
  from assms(2) have fresh: "\<forall>i \<in> set (map uuid [0..<n]). i \<notin> set (issued s)"
    and s': "s' = (handleAddJobs uuid now s)\<lparr>issued := issued s @ map uuid [0..<n],
                  clock := last (clock s # map now [0..<n])\<rparr>"
    by (auto simp: addJobsEvent_def Let_def n_def split: if_splits)
  have len: "length (nonBlankLines (inputPrompt s)) = n"
    by (simp add: n_def nonBlankLines_blank)
  have ids: "map id' (jobs s') = map id' (jobs s) @ map uuid [0..<n]"
    by (simp add: s' jobs_handleAddJobs ids_newJobs len)
  have rest: "issued s' = issued s @ map uuid [0..<n]"
    by (simp_all add: s' handleAddJobs_def)
  from assms(1) fresh show ?thesis
    unfolding gone_def ids rest by auto
qed

lemma gone_frame:
  assumes "gone i s" "set (map id' (jobs s')) \<subseteq> set (map id' (jobs s))"
    "set (issued s) \<subseteq> set (issued s')"
  shows "gone i s'"
  using assms unfolding gone_def by blast

lemma gone_step:
  assumes "gone i s" "step e s = Some s'"
  shows "gone i s'"
  using assms(2)
proof (cases rule: step_cases)
  case (AddJobs uuid now)
  with assms(1) show ?thesis by (auto intro: gone_addJobs)
next
  case (Settle k r now)
  obtain c job where cj: "awaiting s ! k = (c, job)" by (cases "awaiting s ! k")
  have "map id' (jobs s') = map id' (jobs s) \<and> issued s' = issued s"
    using Settle(2) cj
    by (cases "generateVideoWithVeo r") (auto simp: settleEvent_def resume_def split: if_splits)
  with assms(1) show ?thesis by (simp add: gone_def)
next
  case (Entry c)
  from assms(1) show ?thesis
    unfolding Entry(2)
    by (rule gone_frame) (simp_all add: processQueue_def Let_def split: option.splits)
next
  case (Retry i)
  from assms(1) show ?thesis
    unfolding Retry(2) by (rule gone_frame) (simp_all add: retryJob_def del: map_map)
next
  case (Delete i)
  from assms(1) show ?thesis
    unfolding Delete(2) by (rule gone_frame) (auto simp: deleteJob_def)
next
  case (ClearAll b)
  from assms(1) show ?thesis
    unfolding ClearAll(2) by (rule gone_frame) (simp_all add: clearAll_def)
next
  case (Connect b)
  from assms(1) show ?thesis
    unfolding Connect(2) by (rule gone_frame) (simp_all add: handleConnect_def)
next
  case (InitCheck h)
  from assms(1) show ?thesis
    unfolding InitCheck(2) by (rule gone_frame) (simp_all split: option.splits)
next
  case Effect
  from assms(1) show ?thesis
    unfolding Effect(2) by (rule gone_frame) (simp_all add: effect_def)
next
  case (Try c job)
  from assms(1) show ?thesis
    unfolding Try(2) by (rule gone_frame) (simp_all add: tryBlock_def)
next
  case (Catch c job m)
  from assms(1) show ?thesis
    unfolding Catch(2) by (rule gone_frame) (simp_all add: catchBlock_def)
next
  case (Finally c)
  from assms(1) show ?thesis
    unfolding Finally(2) by (rule gone_frame) (simp_all add: finallyBlock_def)
next
  case (Change t)
  from assms(1) show ?thesis
    unfolding Change(2) by (rule gone_frame) simp_all
qed

lemma gone_run: "gone i s \<Longrightarrow> run es s = Some s' \<Longrightarrow> gone i s'"
proof (induction es arbitrary: s)
  case Nil
  then show ?case by simp
next
  case (Cons e es)
  then show ?case by (auto split: option.splits dest: gone_step)
qed

lemma setProcessing_absent: "id' job \<notin> set (map id' xs) \<Longrightarrow> setProcessing job xs = xs"
  by (induction xs) (auto simp: setProcessing_def)

lemma setCompleted_absent: "id' job \<notin> set (map id' xs) \<Longrightarrow> setCompleted job r now xs = xs"
  by (induction xs) (auto simp: setCompleted_def)

lemma setFailed_absent: "id' job \<notin> set (map id' xs) \<Longrightarrow> setFailed job m xs = xs"
  by (induction xs) (auto simp: setFailed_def)

lemma delete_then_settle:
  assumes "running s = Idle" "awaiting s = [(c, job)]" "clock s \<le> now"
  shows "\<exists>s'. run [Delete (id' job), Settle 0 r now, Step] s = Some s'
     \<and> jobs s' = filter (\<lambda>j. id' j \<noteq> id' job) (jobs s)"
proof -
  have absent: "id' job \<notin> set (map id' (filter (\<lambda>j. id' j \<noteq> id' job) (jobs s)))"
    by auto
  show ?thesis
  proof (cases "generateVideoWithVeo r")
    case (Resolved result)
    with assms show ?thesis
      by (simp add: step_def idleEvent_def deleteJob_def settleEvent_def resume_def isStep_def
          finallyBlock_def setCompleted_absent [OF absent])
  next
    case (Rejected m)
    with assms show ?thesis
      by (simp add: step_def idleEvent_def deleteJob_def settleEvent_def resume_def isStep_def
          catchBlock_def setFailed_absent [OF absent])
  qed
qed

text \<open>
  C8: let the job of the call in flight be deleted.  Whatever happens next, the store never
  again has a job with its id; in particular, when the call settles, with a video or with
  an error, the write of \<open>COMPLETED\<close> or \<open>FAILED\<close> takes place without an error and leaves
  the store as the deletion left it, every other job unchanged.  In general each of the three
  updaters of \<open>processQueue\<close> returns the list it was given when no job of the list has the id.
\<close>

theorem stale_write_noop:
  assumes "run es (initial t0) = Some s" and "running s = Idle" and "awaiting s = [(c, job)]"
    and "run (Delete (id' job) # es') s = Some s'"
  shows "id' job \<notin> set (map id' (jobs s'))
    \<and> (\<forall>r now. clock s \<le> now \<longrightarrow>
          (\<exists>s''. run [Delete (id' job), Settle 0 r now, Step] s = Some s''
             \<and> jobs s'' = filter (\<lambda>j. id' j \<noteq> id' job) (jobs s)))
    \<and> (\<forall>j xs r now m. id' j \<notin> set (map id' xs) \<longrightarrow>
          setProcessing j xs = xs \<and> setCompleted j r now xs = xs \<and> setFailed j m xs = xs)"
proof -
  have "knownIds s" using knownIds_initial assms(1) by (rule knownIds_run)
  with assms(3) have iss: "id' job \<in> set (issued s)"
    by (simp add: knownIds_def controlIds_def)
  from assms(2,4) have rest: "run es' (deleteJob (id' job) s) = Some s'"
    by (simp add: step_def idleEvent_def)
  from iss have "gone (id' job) (deleteJob (id' job) s)"
    by (auto simp: gone_def deleteJob_def)
  then have "gone (id' job) s'" using rest by (rule gone_run)
  then have 1: "id' job \<notin> set (map id' (jobs s'))" by (simp add: gone_def)
  have 2: "\<exists>s''. run [Delete (id' job), Settle 0 r now, Step] s = Some s''
             \<and> jobs s'' = filter (\<lambda>j. id' j \<noteq> id' job) (jobs s)"
    if "clock s \<le> now" for r now
    using assms(2,3) that by (rule delete_then_settle)
  have 3: "setProcessing j xs = xs \<and> setCompleted j r now xs = xs \<and> setFailed j m xs = xs"
    if "id' j \<notin> set (map id' xs)" for j xs r now m
    using that by (simp add: setProcessing_absent setCompleted_absent setFailed_absent)
  from 1 2 3 show ?thesis by blast
qed

text \<open>
  The job of \<open>started\<close> is deleted while the client works on it; then the client delivers
  the video and \<open>processQueue\<close> goes on.
\<close>

theorem stale_write_noop_witness:
  "\<exists>s c job s'. run started (initial 0) = Some s \<and> running s = Idle \<and> awaiting s = [(c, job)]
     \<and> map status (jobs s) = [PROCESSING]
     \<and> run (Delete (id' job) # [Settle 0 video 5, Step, Step, Step]) s = Some s'
     \<and> jobs s' = [] \<and> id' job \<notin> set (map id' (jobs s'))"
proof -
  have "map_option (\<lambda>s. (running s, map status (jobs s), length (awaiting s)))
          (run started (initial 0)) = Some (Idle, [PROCESSING], 1)"
    by code_simp
  then obtain s where r: "run started (initial 0) = Some s"
    and i: "running s = Idle" and p: "map status (jobs s) = [PROCESSING]"
    and l: "length (awaiting s) = 1"
    by auto
  from l obtain c job where a: "awaiting s = [(c, job)]"
    by (cases "awaiting s") auto
  have "case run started (initial 0) of
          None \<Rightarrow> False
        | Some s \<Rightarrow>
            (case run (Delete (id' (snd (hd (awaiting s)))) # [Settle 0 video 5, Step, Step, Step]) s of
               None \<Rightarrow> False
             | Some s' \<Rightarrow> jobs s' = [])"
    by code_simp
  with r a obtain s' where d: "run (Delete (id' job) # [Settle 0 video 5, Step, Step, Step]) s = Some s'"
    and e: "jobs s' = []"
    by (cases "run (Delete (id' job) # [Settle 0 video 5, Step, Step, Step]) s") simp_all
  from stale_write_noop [OF r i a d] have g: "id' job \<notin> set (map id' (jobs s'))"
    by (rule conjunct1)
  show ?thesis
    by (rule exI [of _ s], rule exI [of _ c], rule exI [of _ job], rule exI [of _ s'])
      (intro conjI r i a p d e g)
qed

section \<open>The next pass of a drain\<close>

lemma run_append:
  "run (es @ es') s = (case run es s of None \<Rightarrow> None | Some s' \<Rightarrow> run es' s')"
  by (induction es arbitrary: s) (auto split: option.splits)

lemma others_setProcessing [simp]:
  "filter (\<lambda>j. id' j \<noteq> id' job) (setProcessing job xs) = filter (\<lambda>j. id' j \<noteq> id' job) xs"
  by (induction xs) (simp_all add: setProcessing_def)

lemma others_setCompleted [simp]:
  "filter (\<lambda>j. id' j \<noteq> id' job) (setCompleted job r now xs) = filter (\<lambda>j. id' j \<noteq> id' job) xs"
  by (induction xs) (simp_all add: setCompleted_def)

lemma others_setFailed [simp]:
  "filter (\<lambda>j. id' j \<noteq> id' job) (setFailed job m xs) = filter (\<lambda>j. id' j \<noteq> id' job) xs"
  by (induction xs) (simp_all add: setFailed_def)

lemma reenter:
  assumes "nextJob (fst c) = Some job" "snd c" "running s = AtFinally c" "awaiting s = []"
  shows "\<exists>s'. run [Step, Step, Step] s = Some s' \<and> stuck c job s'
     \<and> calls s' = calls s @ [prompt job] \<and> clock s' = clock s
     \<and> filter (\<lambda>j. id' j \<noteq> id' job) (jobs s') = filter (\<lambda>j. id' j \<noteq> id' job) (jobs s)"
proof -
  from assms(1) obtain n where n: "findIndex (\<lambda>j. status j = PENDING) (fst c) = Some n" "fst c ! n = job"
    by (auto simp: nextJob_def)
  define s1 where "s1 = finallyBlock c s"
  define s2 where "s2 = processQueue c s1"
  define s3 where "s3 = tryBlock c job s2"
  have 1: "step Step s = Some s1" using assms(3) by (simp add: step_def isStep_def s1_def)
  have r1: "running s1 = AtEntry c" "\<not> processingRef s1" by (simp_all add: s1_def finallyBlock_def)
  have 2: "step Step s1 = Some s2" using r1 by (simp add: step_def isStep_def s2_def)
  have s2: "s2 = s1\<lparr>processingRef := True, isProcessing := True,
      jobs := setProcessing job (jobs s1), running := AtTry c job\<rparr>"
    using r1 n by (simp add: s2_def processQueue_def)
  have 3: "step Step s2 = Some s3" by (simp add: step_def isStep_def s3_def s2)
  have s3: "s3 = s2\<lparr>calls := calls s2 @ [prompt job], awaiting := awaiting s2 @ [(c, job)],
      running := Idle\<rparr>"
    using assms(2) by (simp add: s3_def tryBlock_def)
  have "run [Step, Step, Step] s = Some s3" by (simp add: 1 2 3)
  moreover have "stuck c job s3"
    using assms by (simp add: stuck_def s3 s2 s1_def finallyBlock_def)
  moreover have "calls s3 = calls s @ [prompt job]" "clock s3 = clock s"
    by (simp_all add: s3 s2 s1_def finallyBlock_def)
  moreover have "filter (\<lambda>j. id' j \<noteq> id' job) (jobs s3) = filter (\<lambda>j. id' j \<noteq> id' job) (jobs s)"
    by (simp add: s3 s2 s1_def finallyBlock_def)
  ultimately show ?thesis by blast
qed

lemma stuck_resolved:
  assumes "stuck c job s" "clock s \<le> now" "generateVideoWithVeo r = Resolved result"
  shows "\<exists>s'. run [Settle 0 r now, Step, Step, Step] s = Some s' \<and> stuck c job s'
     \<and> calls s' = calls s @ [prompt job] \<and> clock s' = now
     \<and> filter (\<lambda>j. id' j \<noteq> id' job) (jobs s') = filter (\<lambda>j. id' j \<noteq> id' job) (jobs s)"
proof -
  define s1 where "s1 = s\<lparr>awaiting := [], clock := now,
      jobs := setCompleted job result now (jobs s), running := AtFinally c\<rparr>"
  from assms have 1: "step (Settle 0 r now) s = Some s1"
    by (simp add: stuck_def step_def idleEvent_def settleEvent_def resume_def s1_def)
  from assms(1) have "nextJob (fst c) = Some job" "snd c" by (simp_all add: stuck_def)
  moreover have "running s1 = AtFinally c" "awaiting s1 = []" by (simp_all add: s1_def)
  ultimately obtain s' where "run [Step, Step, Step] s1 = Some s'" "stuck c job s'"
    "calls s' = calls s1 @ [prompt job]" "clock s' = clock s1"
    "filter (\<lambda>j. id' j \<noteq> id' job) (jobs s') = filter (\<lambda>j. id' j \<noteq> id' job) (jobs s1)"
    using reenter by blast
  with 1 show ?thesis by (auto simp: s1_def)
qed

lemma stuck_rejected:
  assumes "stuck c job s" "clock s \<le> now" "generateVideoWithVeo r = Rejected m"
  shows "\<exists>s'. run [Settle 0 r now, Step, Step, Step, Step] s = Some s' \<and> stuck c job s'
     \<and> calls s' = calls s @ [prompt job] \<and> clock s' = now
     \<and> filter (\<lambda>j. id' j \<noteq> id' job) (jobs s') = filter (\<lambda>j. id' j \<noteq> id' job) (jobs s)"
proof -
  define s1 where "s1 = s\<lparr>awaiting := [], clock := now, running := AtCatch c job m\<rparr>"
  define s2 where "s2 = catchBlock c job m s1"
  from assms have 1: "step (Settle 0 r now) s = Some s1"
    by (simp add: stuck_def step_def idleEvent_def settleEvent_def resume_def s1_def)
  have 2: "step Step s1 = Some s2" by (simp add: step_def isStep_def s1_def s2_def)
  from assms(1) have "nextJob (fst c) = Some job" "snd c" by (simp_all add: stuck_def)
  moreover have "running s2 = AtFinally c" "awaiting s2 = []"
    by (simp_all add: s2_def s1_def catchBlock_def)
  ultimately obtain s' where "run [Step, Step, Step] s2 = Some s'" "stuck c job s'"
    "calls s' = calls s2 @ [prompt job]" "clock s' = clock s2"
    "filter (\<lambda>j. id' j \<noteq> id' job) (jobs s') = filter (\<lambda>j. id' j \<noteq> id' job) (jobs s2)"
    using reenter by blast
  with 1 2 show ?thesis by (auto simp: s1_def s2_def catchBlock_def)
qed



section \<open>The order of processing\<close>

lemma concat_replicate_Suc: "concat (replicate (Suc n) xs) = concat (replicate n xs) @ xs"
  by (induction n) simp_all

lemma stuck_not_idle_start:
  "case run [Effect, Step, Step] threePending of
     None \<Rightarrow> False
   | Some s \<Rightarrow> stuck (jobs threePending, True) jobA s \<and> calls s = [prompt jobA]
       \<and> filter (\<lambda>j. id' j \<noteq> id' jobA) (jobs s) = [jobB, jobC] \<and> clock s \<le> 4"
  by code_simp

text \<open>
  C3 fails on the code.  The \<open>finally\<close> block calls the \<open>processQueue\<close> that is running,
  whose \<open>jobs\<close> is the list of the render in which the effect ran; there job A is still
  \<open>PENDING\<close>, so \<open>findIndex\<close> finds A again.  With A, B, C pending and a client that always
  delivers, after any number \<open>n\<close> of deliveries the client has been called \<open>n + 1\<close> times, each
  time with the prompt of A, the call in flight is for A, and B and C are as they were added,
  \<open>PENDING\<close>.
\<close>

theorem drain_stays_on_first_job:
  "\<forall>n. \<exists>s. run ([Effect, Step, Step] @ concat (replicate n [Settle 0 video 4, Step, Step, Step]))
            threePending = Some s
     \<and> awaiting s = [((jobs threePending, True), jobA)]
     \<and> calls s = replicate (Suc n) (prompt jobA)
     \<and> filter (\<lambda>j. id' j \<noteq> id' jobA) (jobs s) = [jobB, jobC]
     \<and> status jobB = PENDING \<and> status jobC = PENDING"
proof
  fix n
  have "\<exists>s. run ([Effect, Step, Step] @ concat (replicate n [Settle 0 video 4, Step, Step, Step]))
            threePending = Some s
     \<and> stuck (jobs threePending, True) jobA s
     \<and> calls s = replicate (Suc n) (prompt jobA)
     \<and> filter (\<lambda>j. id' j \<noteq> id' jobA) (jobs s) = [jobB, jobC] \<and> clock s \<le> 4"
  proof (induction n)
    case 0
    from stuck_not_idle_start show ?case by (auto split: option.splits)
  next
    case (Suc n)
    then obtain s where s: "run ([Effect, Step, Step] @ concat (replicate n [Settle 0 video 4, Step, Step, Step]))
            threePending = Some s" "stuck (jobs threePending, True) jobA s"
      "calls s = replicate (Suc n) (prompt jobA)"
      "filter (\<lambda>j. id' j \<noteq> id' jobA) (jobs s) = [jobB, jobC]" "clock s \<le> 4"
      by blast
    have v: "generateVideoWithVeo video = Resolved (GenerateVideoResult (js ''blob:video'') [0, 1, 2])"
      by (simp add: generateVideoWithVeo_def video_def)
    from stuck_resolved [OF s(2) s(5) v] obtain s' where s':
      "run [Settle 0 video 4, Step, Step, Step] s = Some s'" "stuck (jobs threePending, True) jobA s'"
      "calls s' = calls s @ [prompt jobA]" "clock s' = 4"
      "filter (\<lambda>j. id' j \<noteq> id' jobA) (jobs s') = filter (\<lambda>j. id' j \<noteq> id' jobA) (jobs s)"
      by blast
    have "run (([Effect, Step, Step] @ concat (replicate n [Settle 0 video 4, Step, Step, Step]))
              @ [Settle 0 video 4, Step, Step, Step]) threePending = Some s'"
      using s(1) s'(1) by (simp only: run_append option.case)
    then have "run ([Effect, Step, Step] @ concat (replicate (Suc n) [Settle 0 video 4, Step, Step, Step]))
            threePending = Some s'"
      by (simp only: concat_replicate_Suc append_assoc)
    moreover have "calls s' = replicate (Suc (Suc n)) (prompt jobA)"
      using s'(3) s(3) by (simp add: replicate_append_same)
    ultimately show ?case using s' s(4) by auto
  qed
  then show "\<exists>s. run ([Effect, Step, Step] @ concat (replicate n [Settle 0 video 4, Step, Step, Step]))
            threePending = Some s
     \<and> awaiting s = [((jobs threePending, True), jobA)]
     \<and> calls s = replicate (Suc n) (prompt jobA)
     \<and> filter (\<lambda>j. id' j \<noteq> id' jobA) (jobs s) = [jobB, jobC]
     \<and> status jobB = PENDING \<and> status jobC = PENDING"
    by (auto simp: stuck_def jobB_def jobC_def newJob_def)
qed

section \<open>The key not connected\<close>







section \<open>The session-invalid error\<close>

lemma replaced_message:
  "\<not> entityNotFound (Some (js ''API Key session expired or invalid. Please re-select your key.''))"
  by code_simp

lemma veo_hides_marker:
  "case generateVideoWithVeo (ApiThrows m) of Resolved result \<Rightarrow> False | Rejected m' \<Rightarrow> \<not> entityNotFound m'"
  using replaced_message by (simp add: generateVideoWithVeo_def veoCatch_def)

text \<open>
  C2 fails on the code.  The \<open>catch\<close> of \<open>generateVideoWithVeo\<close> replaces every error of
  its \<open>try\<close> block whose message has the marker "Requested entity was not found" by an error
  whose message has not, so \<open>processQueue\<close> never sees the marker from there: the job fails
  with the replaced message and \<open>apiKeyReady\<close> stays true.  And where the flag does become
  false (the marker thrown before the \<open>try\<close>), the \<open>finally\<close> block runs the same closure
  again, whose \<open>apiKeyReady\<close> is still true: the client is called again for the job.
\<close>

theorem session_invalid_not_signalled:
  "(case generateVideoWithVeo (ApiThrows m) of
      Resolved result \<Rightarrow> False
    | Rejected m' \<Rightarrow> \<not> entityNotFound m')
   \<and> map_option (\<lambda>s. (map (\<lambda>j. (status j, error j)) (jobs s), apiKeyReady s, calls s))
       (run (started @ [Settle 0 (ApiThrows (Some (js ''Requested entity was not found.''))) 5, Step])
         (initial 0))
     = Some ([(FAILED, Some (js ''API Key session expired or invalid. Please re-select your key.''))],
             True, [js ''a cat''])
   \<and> map_option (\<lambda>s. (map status (jobs s), apiKeyReady s, calls s))
       (run (started @ [Settle 0 (ApiThrows (Some (js ''Requested entity was not found.''))) 5,
                        Step, Step, Step, Step]) (initial 0))
     = Some ([PROCESSING], True, [js ''a cat'', js ''a cat''])
   \<and> map_option (\<lambda>s. (map (\<lambda>j. (status j, error j)) (jobs s), apiKeyReady s, calls s))
       (run (started @ [Settle 0 (ClientInitThrows (Some (js ''Requested entity was not found.''))) 5,
                        Step, Step, Step, Step]) (initial 0))
     = Some ([(PROCESSING, Some (js ''Requested entity was not found.''))], False,
             [js ''a cat'', js ''a cat''])"
proof -
  have 2: "map_option (\<lambda>s. (map (\<lambda>j. (status j, error j)) (jobs s), apiKeyReady s, calls s))
       (run (started @ [Settle 0 (ApiThrows (Some (js ''Requested entity was not found.''))) 5, Step])
         (initial 0))
     = Some ([(FAILED, Some (js ''API Key session expired or invalid. Please re-select your key.''))],
             True, [js ''a cat''])"
    by code_simp
  have 3: "map_option (\<lambda>s. (map status (jobs s), apiKeyReady s, calls s))
       (run (started @ [Settle 0 (ApiThrows (Some (js ''Requested entity was not found.''))) 5,
                        Step, Step, Step, Step]) (initial 0))
     = Some ([PROCESSING], True, [js ''a cat'', js ''a cat''])"
    by code_simp
  have 4: "map_option (\<lambda>s. (map (\<lambda>j. (status j, error j)) (jobs s), apiKeyReady s, calls s))
       (run (started @ [Settle 0 (ClientInitThrows (Some (js ''Requested entity was not found.''))) 5,
                        Step, Step, Step, Step]) (initial 0))
     = Some ([(PROCESSING, Some (js ''Requested entity was not found.''))], False,
             [js ''a cat'', js ''a cat''])"
    by code_simp
  from veo_hides_marker 2 3 4 show ?thesis by blast
qed

section \<open>Adding a batch\<close>

text \<open>
  C6: \<open>handleAddJobs\<close> leaves the existing jobs as they are and appends one job for each
  line of the input whose trimmed content is not empty, in the order of the lines; the
  prompt of the job is the trimmed line and its status is \<open>PENDING\<close>.  Empty lines and lines
  of white space give no job.  The input \<open>"cat on a skateboard\n\nin the rain"\<close> gives two
  jobs, with the prompts \<open>"cat on a skateboard"\<close> and \<open>"in the rain"\<close>.
\<close>

theorem handleAddJobs_one_job_per_line:
  "take (length (jobs s)) (jobs (handleAddJobs uuid now s)) = jobs s
   \<and> map prompt (drop (length (jobs s)) (jobs (handleAddJobs uuid now s)))
       = map trim (filter (\<lambda>line. trim line \<noteq> []) (splitLines (inputPrompt s)))
   \<and> map status (drop (length (jobs s)) (jobs (handleAddJobs uuid now s)))
       = replicate (length (filter (\<lambda>line. trim line \<noteq> []) (splitLines (inputPrompt s)))) PENDING
   \<and> map prompt (drop (length (jobs s)) (jobs (handleAddJobs uuid now
         (s\<lparr>inputPrompt := js ''cat on a skateboard'' @ [0x000A, 0x000A] @ js ''in the rain''\<rparr>))))
       = [js ''cat on a skateboard'', js ''in the rain'']"
proof -
  have nb: "nonBlankLines t = filter (\<lambda>line. trim line \<noteq> []) (splitLines t)" for t
    by (simp add: nonBlankLines_def)
  have ex: "nonBlankLines (js ''cat on a skateboard'' @ [0x000A, 0x000A] @ js ''in the rain'')
            = [js ''cat on a skateboard'', js ''in the rain'']"
    by (simp add: nonBlankLines_def js_def trim_def isWhiteSpace_def)
  have tr: "map trim [js ''cat on a skateboard'', js ''in the rain'']
            = [js ''cat on a skateboard'', js ''in the rain'']"
    by (simp add: js_def trim_def isWhiteSpace_def)
  have 1: "take (length (jobs s)) (jobs (handleAddJobs uuid now s)) = jobs s"
    by (simp add: jobs_handleAddJobs)
  have 2: "map prompt (drop (length (jobs s)) (jobs (handleAddJobs uuid now s)))
           = map trim (filter (\<lambda>line. trim line \<noteq> []) (splitLines (inputPrompt s)))"
    by (simp add: jobs_handleAddJobs prompt_newJobs nb)
  have 3: "map status (drop (length (jobs s)) (jobs (handleAddJobs uuid now s)))
           = replicate (length (filter (\<lambda>line. trim line \<noteq> []) (splitLines (inputPrompt s)))) PENDING"
    by (simp add: jobs_handleAddJobs status_newJobs nb)
  have 4: "map prompt (drop (length (jobs s)) (jobs (handleAddJobs uuid now
             (s\<lparr>inputPrompt := js ''cat on a skateboard'' @ [0x000A, 0x000A] @ js ''in the rain''\<rparr>))))
           = [js ''cat on a skateboard'', js ''in the rain'']"
  proof -
    define s' where "s' = s\<lparr>inputPrompt := js ''cat on a skateboard'' @ [0x000A, 0x000A] @ js ''in the rain''\<rparr>"
    have "map prompt (drop (length (jobs s')) (jobs (handleAddJobs uuid now s')))
          = map trim (nonBlankLines (inputPrompt s'))"
      by (simp add: jobs_handleAddJobs prompt_newJobs)
    moreover have "jobs s' = jobs s" by (simp add: s'_def)
    moreover have "inputPrompt s' = js ''cat on a skateboard'' @ [0x000A, 0x000A] @ js ''in the rain''"
      by (simp add: s'_def)
    ultimately show ?thesis
      by (simp only: ex tr flip: s'_def)
  qed
  from 1 2 3 4 show ?thesis by blast
qed

section \<open>Retrying\<close>

text \<open>
  C10: \<open>retryJob\<close> finds the job by its id alone, whatever its status: every job with that
  id gets the status \<open>PENDING\<close> and no error.  The other fields of every job (id, prompt,
  createdAt, videoUrl, videoBlob, fileName, completedAt) stay as they were, the jobs with
  another id are not touched, and nothing else of the component state changes.
\<close>

theorem retryJob_frame:
  "map (\<lambda>j. (status j, error j)) (filter (\<lambda>j. id' j = i) (jobs (retryJob i s)))
     = replicate (length (filter (\<lambda>j. id' j = i) (jobs s))) (PENDING, None)
   \<and> filter (\<lambda>j. id' j \<noteq> i) (jobs (retryJob i s)) = filter (\<lambda>j. id' j \<noteq> i) (jobs s)
   \<and> map (\<lambda>j. (id' j, prompt j, createdAt j, videoUrl j, videoBlob j, fileName j, completedAt j))
         (jobs (retryJob i s))
     = map (\<lambda>j. (id' j, prompt j, createdAt j, videoUrl j, videoBlob j, fileName j, completedAt j))
         (jobs s)
   \<and> retryJob i s = s\<lparr>jobs := jobs (retryJob i s)\<rparr>"
proof -
  have 1: "map (\<lambda>j. (status j, error j))
             (filter (\<lambda>j. id' j = i)
               (map (\<lambda>j. if id' j = i then j\<lparr>status := PENDING, error := None\<rparr> else j) xs))
           = replicate (length (filter (\<lambda>j. id' j = i) xs)) (PENDING, None)" for xs
    by (induction xs) simp_all
  have 2: "filter (\<lambda>j. id' j \<noteq> i)
             (map (\<lambda>j. if id' j = i then j\<lparr>status := PENDING, error := None\<rparr> else j) xs)
           = filter (\<lambda>j. id' j \<noteq> i) xs" for xs
    by (induction xs) simp_all
  have 3: "map (\<lambda>j. (id' j, prompt j, createdAt j, videoUrl j, videoBlob j, fileName j, completedAt j))
             (map (\<lambda>j. if id' j = i then j\<lparr>status := PENDING, error := None\<rparr> else j) xs)
           = map (\<lambda>j. (id' j, prompt j, createdAt j, videoUrl j, videoBlob j, fileName j, completedAt j)) xs"
    for xs
    by (induction xs) simp_all
  show ?thesis
    by (simp add: retryJob_def 1 2 3)
qed


section \<open>Triggers that find nothing to do\<close>




end
